theory Spec2Isabelle
  imports
    Main
    "HOL-Library.Multiset"
    "HOL-Library.Sublist"
    "HOL-Library.Char_ord"
    "HOL-Library.List_Lexorder"
    "HOL-Library.Product_Lexorder"
begin

section \<open>The collapse-state store and the toggle of the sidebar tree\<close>

text \<open>
  Source: \<^verbatim>\<open>src/components/sidebar/tree.tsx\<close>.

  The global state \<^verbatim>\<open>collapsedState\<close> is a plain JavaScript object used as a dictionary
  from node labels to values. Its own properties are the entries of the store: a map
  from labels to stored values. The values the component writes are booleans; the guard
  of the ancestor loop compares a value with \<^verbatim>\<open>null\<close>, so \<^verbatim>\<open>null\<close> is a stored value of
  the model too.
\<close>

datatype jsval = JNull | JBool bool

type_synonym collapsedState = "string \<rightharpoonup> jsval"

text \<open>
  The initial state \<^verbatim>\<open>{}\<close> and every object literal \<^verbatim>\<open>{...collapsed, [key]: value}\<close>
  inherit from \<^verbatim>\<open>Object.prototype\<close>. These are the names of its members; each is a
  function or an object, hence truthy and not \<^verbatim>\<open>null\<close>.
\<close>

definition object_prototype_members :: "string list" where
  "object_prototype_members =
     [''constructor'', ''__proto__'', ''__defineGetter__'', ''__defineSetter__'',
      ''__lookupGetter__'', ''__lookupSetter__'', ''hasOwnProperty'', ''isPrototypeOf'',
      ''propertyIsEnumerable'', ''toLocaleString'', ''toString'', ''valueOf'']"

text \<open>
  What the property read \<^verbatim>\<open>collapsed[key]\<close> returns: the stored value of an own
  property, else the inherited member when the key names one, else \<^verbatim>\<open>undefined\<close>.
\<close>

datatype js_read = JUndefined | JInherited | JValue jsval

definition js_get :: "collapsedState \<Rightarrow> string \<Rightarrow> js_read" where
  "js_get collapsed key =
     (case collapsed key of
        Some v \<Rightarrow> JValue v
      | None \<Rightarrow> if key \<in> set object_prototype_members then JInherited else JUndefined)"

text \<open>JavaScript's \<^verbatim>\<open>!v\<close> on what a property read returns.\<close>

fun js_not :: "js_read \<Rightarrow> bool" where
  "js_not JUndefined = True"
| "js_not JInherited = False"
| "js_not (JValue JNull) = True"
| "js_not (JValue (JBool b)) = (\<not> b)"

text \<open>Truthiness of a string: only the empty string is falsy.\<close>

definition js_truthy_string :: "string \<Rightarrow> bool" where
  "js_truthy_string p = (p \<noteq> [])"

text \<open>
  \<^verbatim>\<open>setCollapsed(v)\<close> is the setter of \<^verbatim>\<open>useGlobalState('collapsedState')\<close> called with a
  value (not an updater function): the value replaces the state.
\<close>

definition setCollapsed :: "collapsedState \<Rightarrow> collapsedState \<Rightarrow> collapsedState" where
  "setCollapsed v g = v"

text \<open>
  \<^verbatim>\<open>parents.forEach((parent) => { if (parent && collapsed[parent] !== null) {
       setCollapsed({ ...collapsed, [parent]: false }) } })\<close>

  \<open>collapsed\<close> is the value the closure captured when the component rendered; \<open>g\<close> is
  the global state the setter acts on.
\<close>

fun forEach_parent :: "collapsedState \<Rightarrow> string list \<Rightarrow> collapsedState \<Rightarrow> collapsedState" where
  "forEach_parent collapsed [] g = g"
| "forEach_parent collapsed (parent # rest) g =
     forEach_parent collapsed rest
       (if js_truthy_string parent \<and> js_get collapsed parent \<noteq> JValue JNull
        then setCollapsed (collapsed(parent \<mapsto> JBool False)) g
        else g)"

text \<open>
  \<^verbatim>\<open>toggle(label, toggleContent, parents?)\<close>, as a transformer of the global state. The
  optional \<open>parents\<close> is \<open>None\<close> when the argument is left out; an array, also an empty
  one, is truthy.
\<close>

definition toggle ::
  "collapsedState \<Rightarrow> string \<Rightarrow> bool \<Rightarrow> string list option \<Rightarrow> collapsedState \<Rightarrow> collapsedState" where
  "toggle collapsed label toggleContent parents g =
     (let g1 = setCollapsed
                 (collapsed(label \<mapsto> JBool (if \<not> toggleContent then False
                                               else js_not (js_get collapsed label)))) g
      in case parents of
           None \<Rightarrow> g1
         | Some ps \<Rightarrow> forEach_parent collapsed ps g1)"

text \<open>
  The component \<^verbatim>\<open>Tree\<close> reads \<open>collapsed\<close> from the global state each time it renders
  and hands the \<open>toggle\<close> built from it to \<^verbatim>\<open>TreeNode\<close>. \<open>Tree_toggle s\<close> is a call of
  that \<open>toggle\<close> while the store still holds the rendered state \<open>s\<close>; it returns the
  store after the call.
\<close>

definition Tree_toggle ::
  "collapsedState \<Rightarrow> string \<Rightarrow> bool \<Rightarrow> string list option \<Rightarrow> collapsedState" where
  "Tree_toggle s label toggleContent parents = toggle s label toggleContent parents s"

text \<open>
  Modelled from the spec: the store's \<open>read\<close> (section 4.3), which is not in the sources
  (the renderer \<^verbatim>\<open>TreeNode\<close> is missing). An identifier with no entry reads \<open>True\<close>
  (collapsed) unless it is the root or on the active-ancestor chain, which read \<open>False\<close>;
  \<open>chain\<close> lists those identifiers. A stored value reads by its truthiness.
\<close>

definition read :: "string list \<Rightarrow> collapsedState \<Rightarrow> string \<Rightarrow> bool" where
  "read chain s k = (case s k of None \<Rightarrow> k \<notin> set chain | Some v \<Rightarrow> \<not> js_not (JValue v))"

text \<open>The ancestors that pass the guard of the loop, in the order of the list.\<close>

definition forced :: "collapsedState \<Rightarrow> string list \<Rightarrow> string list" where
  "forced collapsed ps =
     filter (\<lambda>p. js_truthy_string p \<and> js_get collapsed p \<noteq> JValue JNull) ps"

section \<open>The tree builder\<close>

text \<open>
  The builder (\<^verbatim>\<open>calculateTreeData\<close> of \<^verbatim>\<open>utils/treeData\<close>, called by \<^verbatim>\<open>Tree\<close>) is not among
  the sources. Its model follows sections 3, 4.1 and 4.2 of the specification.
\<close>

text \<open>Modelled from the spec: the one error of the builder (section 7); the builder's
  code is missing.\<close>

datatype error = MalformedPathError

text \<open>Modelled from the spec: a Segment (section 3), the decomposition of one raw path
  component; \<open>sortKey\<close> is \<open>None\<close> when the component has no numeric prefix.\<close>

record Segment =
  sortKey :: "nat option"
  label :: string
  raw :: string

text \<open>Modelled from the spec: a PageRecord (section 3), a path of raw components and
  display attributes the builder does not interpret.\<close>

record 'a PageRecord =
  path :: "string list"
  attributes :: 'a

text \<open>Modelled from the spec: a TreeNode (section 3): identifier, label, path (present
  for a page node only), the attached display attributes, children, depth, isActive.\<close>

datatype 'a TreeNode = TreeNode
  (nodeIdentifier: string)
  (nodeLabel: string)
  (nodePath: "string list option")
  (nodeAttributes: "'a option")
  (children: "'a TreeNode list")
  (depth: nat)
  (isActive: bool)

text \<open>Modelled from the spec: the fixed separator between the numeric prefix and the
  label (section 4.1, \<open>"-"\<close>).\<close>

definition separator :: char where
  "separator = CHR ''-''"

text \<open>Modelled from the spec: the characters of the "leading run of digits"
  (section 4.1).\<close>

definition is_digit :: "char \<Rightarrow> bool" where
  "is_digit c = (c \<in> set ''0123456789'')"

text \<open>Modelled from the spec: the value of a decimal digit, for the "parsed integer"
  of section 4.1.\<close>

definition digit_value :: "char \<Rightarrow> nat" where
  "digit_value c = of_char c - 48"

text \<open>Modelled from the spec: the "parsed integer" of a run of digits (section 4.1).\<close>

definition parse_integer :: "string \<Rightarrow> nat" where
  "parse_integer ds = foldl (\<lambda>n c. 10 * n + digit_value c) 0 ds"

text \<open>Modelled from the spec: the Path Decomposer on one component (section 4.1). A
  leading run of digits followed by the separator gives the sort key, and the remainder
  is the label; otherwise there is no sort key and the label is the raw component. A
  label that is empty is a \<open>MalformedPathError\<close>.\<close>

definition decompose_segment :: "string \<Rightarrow> error + Segment" where
  "decompose_segment r =
     (case (takeWhile is_digit r, dropWhile is_digit r) of
        (d # ds, c # rest) \<Rightarrow>
          if c = separator
          then (if rest = [] then Inl MalformedPathError
                else Inr \<lparr>sortKey = Some (parse_integer (d # ds)), label = rest, raw = r\<rparr>)
          else Inr \<lparr>sortKey = None, label = r, raw = r\<rparr>
      | _ \<Rightarrow>
          if r = [] then Inl MalformedPathError
          else Inr \<lparr>sortKey = None, label = r, raw = r\<rparr>)"

text \<open>Modelled from the spec: the Path Decomposer on the components of a path, in
  order; the first component that fails fails the path.\<close>

fun decompose_segments :: "string list \<Rightarrow> error + Segment list" where
  "decompose_segments [] = Inr []"
| "decompose_segments (r # rs) =
     (case decompose_segment r of
        Inl e \<Rightarrow> Inl e
      | Inr s \<Rightarrow> (case decompose_segments rs of
                    Inl e \<Rightarrow> Inl e
                  | Inr ss \<Rightarrow> Inr (s # ss)))"

text \<open>Modelled from the spec: the Path Decomposer (section 4.1); a path with zero
  segments is a \<open>MalformedPathError\<close> (section 4.2, edge cases).\<close>

definition decompose :: "string list \<Rightarrow> error + Segment list" where
  "decompose p = (if p = [] then Inl MalformedPathError else decompose_segments p)"

text \<open>Modelled from the spec: the tree while pages are inserted (section 4.2, step 2,
  and the "builder" representation of section 9): a node holds its segment, the display
  attributes of its page once the page's own record has been inserted (\<open>None\<close> for a
  category-only node), and its children in the order of their creation.\<close>

datatype 'a Builder = Builder (seg: Segment) (page: "'a option") (kids: "'a Builder list")

text \<open>Modelled from the spec: the segment of the root, which stands for no path
  component.\<close>

definition root_segment :: Segment where
  "root_segment = \<lparr>sortKey = None, label = [], raw = []\<rparr>"

text \<open>Modelled from the spec: the single root node the pages are inserted into; it is
  the tree for zero input records (section 4.2).\<close>

definition empty_root :: "'a Builder" where
  "empty_root = Builder root_segment None []"

text \<open>Modelled from the spec: one step of the walk of section 4.2, step 2. The child
  whose raw segment value matches is continued with (\<open>f\<close> is the rest of the walk); if no
  child matches, a new category node is created after the existing children.\<close>

fun insert_kid :: "('a Builder \<Rightarrow> 'a Builder) \<Rightarrow> Segment \<Rightarrow> 'a Builder list \<Rightarrow> 'a Builder list" where
  "insert_kid f s [] = [f (Builder s None [])]"
| "insert_kid f s (c # cs) =
     (if raw (seg c) = raw s then f c # cs else c # insert_kid f s cs)"

text \<open>Modelled from the spec: the insertion of one decomposed path (section 4.2,
  step 2). At the final segment the page's display attributes are attached to the node
  reached; a later record with the same path overwrites them (last write wins).\<close>

primrec insert_path :: "Segment list \<Rightarrow> 'a \<Rightarrow> 'a Builder \<Rightarrow> 'a Builder" where
  "insert_path [] a t = Builder (seg t) (Some a) (kids t)"
| "insert_path (s # ss) a t = Builder (seg t) (page t) (insert_kid (insert_path ss a) s (kids t))"

text \<open>Modelled from the spec: the order of siblings, by \<open>(sortKey, label)\<close> ascending
  (section 3). A segment with no sort key sorts after all prefixed ones, and the label
  breaks ties; the key is compared lexicographically, \<open>False < True\<close> first.\<close>

definition segment_key :: "Segment \<Rightarrow> bool \<times> nat \<times> string" where
  "segment_key s = (case sortKey s of Some n \<Rightarrow> (False, n, label s) | None \<Rightarrow> (True, 0, label s))"

text \<open>Modelled from the spec: the sort key of a node is that of its segment.\<close>

definition node_key :: "'a Builder \<Rightarrow> bool \<times> nat \<times> string" where
  "node_key c = segment_key (seg c)"

text \<open>Modelled from the spec: section 4.2, step 3: after all insertions the children of
  every node are sorted by \<open>(sortKey, label)\<close>. The sort is stable (section 3): children
  with equal keys keep the order of their creation.\<close>

fun sort_children :: "'a Builder \<Rightarrow> 'a Builder" where
  "sort_children (Builder s p cs) =
     Builder s p (sort_key node_key (map sort_children cs))"

text \<open>Modelled from the spec: the "fully-qualified join" of raw segments that makes a
  node identifier (section 3).\<close>

fun join :: "string list \<Rightarrow> string" where
  "join [] = []"
| "join [x] = x"
| "join (x # y # ys) = x @ ''/'' @ join (y # ys)"

text \<open>Modelled from the spec: the TreeNode of a node below the root, where \<open>pre\<close> is the
  raw path of its parent (section 3 and section 4.2, step 4): the identifier joins the
  raw segments from the root, the path is present for a page node, and the page node
  whose reconstructed path equals the current location is active.\<close>

fun finalize :: "string list \<Rightarrow> string list \<Rightarrow> 'a Builder \<Rightarrow> 'a TreeNode" where
  "finalize loc pre (Builder s p cs) =
     TreeNode (join (pre @ [raw s])) (label s)
       (if p = None then None else Some (pre @ [raw s])) p
       (map (finalize loc (pre @ [raw s])) cs)
       (Suc (length pre))
       (p \<noteq> None \<and> pre @ [raw s] = loc)"

text \<open>Modelled from the spec: the root TreeNode: depth 0, no path, never active.\<close>

definition finalize_root :: "string list \<Rightarrow> 'a Builder \<Rightarrow> 'a TreeNode" where
  "finalize_root loc t = TreeNode [] [] None None (map (finalize loc []) (kids t)) 0 False"

text \<open>Modelled from the spec: section 4.2, step 1: the path of every page is
  decomposed. One malformed record rejects the whole build (section 7).\<close>

fun decompose_pages :: "'a PageRecord list \<Rightarrow> error + (Segment list \<times> 'a) list" where
  "decompose_pages [] = Inr []"
| "decompose_pages (p # ps) =
     (case decompose (path p) of
        Inl e \<Rightarrow> Inl e
      | Inr ss \<Rightarrow> (case decompose_pages ps of
                     Inl e \<Rightarrow> Inl e
                   | Inr ds \<Rightarrow> Inr ((ss, attributes p) # ds)))"

text \<open>Modelled from the spec: section 4.2, step 2: the decomposed paths are inserted
  one after the other, in input order, into a single root.\<close>

definition insert_all :: "(Segment list \<times> 'a) list \<Rightarrow> 'a Builder" where
  "insert_all ds = foldl (\<lambda>t d. insert_path (fst d) (snd d) t) empty_root ds"

text \<open>Modelled from the spec: \<open>build(pageRecords, currentLocation)\<close> (section 4.2):
  decompose, insert, sort, then mark the active node. It returns the root, or the error
  and no tree.\<close>

definition build :: "'a PageRecord list \<Rightarrow> string list \<Rightarrow> error + 'a TreeNode" where
  "build pageRecords currentLocation =
     (case decompose_pages pageRecords of
        Inl e \<Rightarrow> Inl e
      | Inr ds \<Rightarrow> Inr (finalize_root currentLocation (sort_children (insert_all ds))))"

subsection \<open>Notions used to state and prove the claim about build\<close>

text \<open>
  The shape of a tree: everything but the display attributes, that is the identifier,
  label, path, depth and activity of every node and the order of its children.
\<close>

definition shape :: "'a TreeNode \<Rightarrow> unit TreeNode" where
  "shape t = map_TreeNode (\<lambda>_. ()) t"

definition shapeB :: "'a Builder \<Rightarrow> unit Builder" where
  "shapeB t = map_Builder (\<lambda>_. ()) t"

text \<open>
  Two raw components have the same sort key when both decompose and their segments
  agree on \<open>(sortKey, label)\<close>, as \<open>01-a\<close> and \<open>1-a\<close> do.
\<close>

definition same_sort_key :: "string \<Rightarrow> string \<Rightarrow> bool" where
  "same_sort_key r r' =
     (case (decompose_segment r, decompose_segment r') of
        (Inr s, Inr s') \<Rightarrow> segment_key s = segment_key s'
      | _ \<Rightarrow> False)"

text \<open>
  A list of paths is unambiguous when no two different raw components under the same
  parent (after the same prefix) have the same sort key.
\<close>

definition unambiguous :: "string list list \<Rightarrow> bool" where
  "unambiguous paths =
     (\<forall>p\<in>set paths. \<forall>q\<in>set paths. \<forall>i\<in>{..<min (length p) (length q)}.
        take i p = take i q \<and> same_sort_key (p ! i) (q ! i) \<longrightarrow> p ! i = q ! i)"

text \<open>
  The abstraction of a tree under construction: the raw paths of its nodes, the raw
  paths of its page nodes, and the invariant of insertion (the children of a node have
  different raw values, and every segment is the decomposition of its raw value).
\<close>

fun npaths :: "'a Builder \<Rightarrow> string list set" where
  "npaths (Builder s p cs) = insert [] (\<Union>c\<in>set cs. (#) (raw (seg c)) ` npaths c)"

fun ppaths :: "'a Builder \<Rightarrow> string list set" where
  "ppaths (Builder s p cs) =
     (if p = None then {} else {[]}) \<union> (\<Union>c\<in>set cs. (#) (raw (seg c)) ` ppaths c)"

fun well_formed :: "'a Builder \<Rightarrow> bool" where
  "well_formed (Builder s p cs) =
     (distinct (map (\<lambda>c. raw (seg c)) cs)
      \<and> (\<forall>c\<in>set cs. decompose_segment (raw (seg c)) = Inr (seg c) \<and> well_formed c))"

definition sibling_unique :: "string list set \<Rightarrow> bool" where
  "sibling_unique N =
     (\<forall>pre r r'. pre @ [r] \<in> N \<longrightarrow> pre @ [r'] \<in> N \<longrightarrow> same_sort_key r r' \<longrightarrow> r = r')"

section \<open>What a call of toggle leaves in the store\<close>

lemma js_get_null: "(js_get s p = JValue JNull) = (s p = Some JNull)"
  by (simp add: js_get_def split: option.splits)

lemma js_get_other: "p \<noteq> q \<Longrightarrow> js_get (s(q \<mapsto> v)) p = js_get s p"
  by (simp add: js_get_def)

lemma forEach_parent_forced:
  "forEach_parent collapsed ps g =
     (if forced collapsed ps = [] then g
      else collapsed(last (forced collapsed ps) \<mapsto> JBool False))"
  by (induction ps arbitrary: g) (simp_all add: forced_def setCollapsed_def)

lemma Tree_toggle_None:
  "Tree_toggle s lab tc None =
     s(lab \<mapsto> JBool (if \<not> tc then False else js_not (js_get s lab)))"
  by (simp add: Tree_toggle_def toggle_def setCollapsed_def)

lemma Tree_toggle_Some:
  "Tree_toggle s lab tc (Some ps) =
     (if forced s ps = []
      then s(lab \<mapsto> JBool (if \<not> tc then False else js_not (js_get s lab)))
      else s(last (forced s ps) \<mapsto> JBool False))"
  by (simp add: Tree_toggle_def toggle_def setCollapsed_def forEach_parent_forced)

lemma last_forced_guard:
  assumes "forced s ps \<noteq> []"
  shows "last (forced s ps) \<noteq> [] \<and> s (last (forced s ps)) \<noteq> Some JNull
         \<and> last (forced s ps) \<in> set ps"
proof -
  have "last (forced s ps) \<in> set (forced s ps)"
    using assms by (rule last_in_set)
  then show ?thesis
    by (simp add: forced_def js_truthy_string_def js_get_null)
qed

lemma forced_after_own_write:
  assumes "forced s ps = []"
  shows "set (forced (s(lab \<mapsto> JBool False)) ps) \<subseteq> {lab}"
proof
  fix p
  assume "p \<in> set (forced (s(lab \<mapsto> JBool False)) ps)"
  then have p: "p \<in> set ps" "js_truthy_string p"
    "js_get (s(lab \<mapsto> JBool False)) p \<noteq> JValue JNull"
    by (simp_all add: forced_def)
  show "p \<in> {lab}"
  proof (rule ccontr)
    assume "p \<notin> {lab}"
    with p have "p \<in> set (forced s ps)" by (simp add: forced_def js_get_other)
    with assms show False by simp
  qed
qed

lemma forced_after_ancestor_write:
  assumes "forced s ps \<noteq> []"
  shows "forced (s(last (forced s ps) \<mapsto> JBool False)) ps = forced s ps"
proof -
  from last_forced_guard [OF assms]
  have g: "s (last (forced s ps)) \<noteq> Some JNull" by simp
  show ?thesis
    unfolding forced_def
  proof (rule filter_cong [OF refl])
    fix p
    assume "p \<in> set ps"
    show "(js_truthy_string p
           \<and> js_get (s(last (filter (\<lambda>p. js_truthy_string p \<and> js_get s p \<noteq> JValue JNull) ps)
                          \<mapsto> JBool False)) p \<noteq> JValue JNull)
          = (js_truthy_string p \<and> js_get s p \<noteq> JValue JNull)"
      using g by (simp add: forced_def js_get_null)
  qed
qed

subsection \<open>The claims about toggle\<close>

text \<open>
  C1 (code defect). The claim: a call \<open>toggle(identifier, true, ancestors)\<close> leaves a
  store that reflects both the flip of \<open>identifier\<close> and the forcing of every qualifying
  ancestor. Every \<open>setCollapsed\<close> of the call spreads the \<open>collapsed\<close> captured at render
  time, so each write discards the one before it. With the entries \<open>a\<close>, \<open>b\<close> and \<open>x\<close> all
  \<open>true\<close>, the call \<open>toggle(x, true, [a, b])\<close> leaves \<open>x\<close> unflipped and \<open>a\<close> not forced;
  only \<open>b\<close>, the last ancestor, is updated.
\<close>

theorem toggle_ancestor_write_discards_flip:
  "Tree_toggle [''a'' \<mapsto> JBool True, ''b'' \<mapsto> JBool True, ''x'' \<mapsto> JBool True]
     ''x'' True (Some [''a'', ''b'']) ''x'' = Some (JBool True)
   \<and> Tree_toggle [''a'' \<mapsto> JBool True, ''b'' \<mapsto> JBool True, ''x'' \<mapsto> JBool True]
     ''x'' True (Some [''a'', ''b'']) ''a'' = Some (JBool True)
   \<and> Tree_toggle [''a'' \<mapsto> JBool True, ''b'' \<mapsto> JBool True, ''x'' \<mapsto> JBool True]
     ''x'' True (Some [''a'', ''b'']) ''b'' = Some (JBool False)"
  by (simp add: Tree_toggle_def toggle_def setCollapsed_def js_truthy_string_def js_get_def
        object_prototype_members_def)

text \<open>
  C2 (corrected). The claim: an ancestor with no entry is left untouched, and only
  ancestors whose stored value exists and is not null are forced. The guard is
  \<open>parent && collapsed[parent] !== null\<close>, and a missing entry reads \<open>undefined\<close>, which is
  not \<open>null\<close>: the ancestor passes the guard and its entry is created.
\<close>

theorem toggle_creates_absent_ancestor:
  "Map.empty ''a'' = (None :: jsval option)
   \<and> Tree_toggle Map.empty ''x'' True (Some [''a'']) ''a'' = Some (JBool False)"
  by (simp add: Tree_toggle_def toggle_def setCollapsed_def js_truthy_string_def js_get_def
        object_prototype_members_def)

text \<open>
  C2 as amended. The loop skips an ancestor only when the identifier is empty or its
  stored value is null; the entry of a skipped ancestor (other than the toggled
  identifier itself) is what it was. An ancestor that is not empty and whose stored
  value is not null, an absent entry included, passes the guard, and the write made for
  it sets its entry to \<open>false\<close>: it is in the store after the call when the ancestor is
  the last of the list.
\<close>

theorem toggle_ancestor_guard:
  "(p \<noteq> lab \<and> (p = [] \<or> s p = Some JNull) \<longrightarrow>
      Tree_toggle s lab tc (Some ps) p = s p)
   \<and> (p \<noteq> [] \<and> s p \<noteq> Some JNull \<longrightarrow>
      Tree_toggle s lab tc (Some (ps @ [p])) p = Some (JBool False))"
proof (intro conjI impI)
  assume skip: "p \<noteq> lab \<and> (p = [] \<or> s p = Some JNull)"
  show "Tree_toggle s lab tc (Some ps) p = s p"
  proof (cases "forced s ps = []")
    case True
    with skip show ?thesis by (simp add: Tree_toggle_Some)
  next
    case False
    from last_forced_guard [OF False] skip have "last (forced s ps) \<noteq> p"
      by auto
    with False show ?thesis by (simp add: Tree_toggle_Some)
  qed
next
  assume pass: "p \<noteq> [] \<and> s p \<noteq> Some JNull"
  then have "forced s (ps @ [p]) = forced s ps @ [p]"
    by (simp add: forced_def js_truthy_string_def js_get_null)
  then show "Tree_toggle s lab tc (Some (ps @ [p])) p = Some (JBool False)"
    by (simp add: Tree_toggle_Some)
qed

theorem toggle_ancestor_guard_witness:
  "''a'' \<noteq> ''x'' \<and> [''a'' \<mapsto> JNull] ''a'' = Some JNull
   \<and> Tree_toggle [''a'' \<mapsto> JNull] ''x'' True (Some [''a'']) ''a'' = Some JNull
   \<and> ''a'' \<noteq> [] \<and> Map.empty ''a'' \<noteq> Some JNull
   \<and> Tree_toggle Map.empty ''x'' True (Some ([''b''] @ [''a''])) ''a'' = Some (JBool False)"
  using toggle_ancestor_guard [of "''a''" "''x''" "[''a'' \<mapsto> JNull]" True "[''a'']"]
    toggle_ancestor_guard [of "''a''" "''x''" Map.empty True "[''b'']"]
  by simp

text \<open>
  C3 (corrected). The claim: two calls \<open>toggle(id, true)\<close> in a row return \<open>read(id)\<close> to
  its value before the first call, also for an \<open>id\<close> with no entry, which reads \<open>true\<close>.
  The first call on a missing entry stores \<open>!undefined = true\<close> and the second stores
  \<open>false\<close>, so \<open>read(id)\<close> goes from the default \<open>true\<close> to \<open>false\<close>.
\<close>

theorem toggle_twice_absent_not_restored:
  "read [] (Tree_toggle (Tree_toggle Map.empty ''x'' True None) ''x'' True None) ''x''
     \<noteq> read [] Map.empty ''x''"
  by (simp add: Tree_toggle_def toggle_def setCollapsed_def read_def js_get_def
        object_prototype_members_def)

text \<open>
  C3 as amended. For an identifier that has an entry, each call \<open>toggle(id, true)\<close>
  flips \<open>read(id)\<close>, so two calls in a row with no other write in between return
  \<open>read(id)\<close> to its value before the first call. For an identifier that has no entry
  and names no member inherited from \<open>Object.prototype\<close>, the first call stores \<open>true\<close>
  and the second stores \<open>false\<close>: the entry ends \<open>false\<close>, not at the \<open>true\<close> that
  \<open>read\<close> gives a missing entry.
\<close>

theorem toggle_twice:
  "(s i \<noteq> None \<longrightarrow>
      read chain (Tree_toggle s i True None) i = (\<not> read chain s i)
      \<and> read chain (Tree_toggle (Tree_toggle s i True None) i True None) i = read chain s i)
   \<and> (s i = None \<and> i \<notin> set object_prototype_members \<longrightarrow>
      Tree_toggle s i True None i = Some (JBool True)
      \<and> Tree_toggle (Tree_toggle s i True None) i True None i = Some (JBool False))"
proof (intro conjI impI)
  assume "s i \<noteq> None"
  then obtain v where v: "s i = Some v" by blast
  show "read chain (Tree_toggle s i True None) i = (\<not> read chain s i)"
    by (cases v) (simp_all add: v Tree_toggle_None read_def js_get_def)
  show "read chain (Tree_toggle (Tree_toggle s i True None) i True None) i = read chain s i"
    by (cases v) (simp_all add: v Tree_toggle_None read_def js_get_def)
next
  assume a: "s i = None \<and> i \<notin> set object_prototype_members"
  then show "Tree_toggle s i True None i = Some (JBool True)"
    by (simp add: Tree_toggle_None js_get_def)
  from a show "Tree_toggle (Tree_toggle s i True None) i True None i = Some (JBool False)"
    by (simp add: Tree_toggle_None js_get_def)
qed

theorem toggle_twice_witness:
  "[''x'' \<mapsto> JBool True] ''x'' \<noteq> None
   \<and> read [] (Tree_toggle [''x'' \<mapsto> JBool True] ''x'' True None) ''x''
       = (\<not> read [] [''x'' \<mapsto> JBool True] ''x'')
   \<and> read [] (Tree_toggle (Tree_toggle [''x'' \<mapsto> JBool True] ''x'' True None) ''x'' True None) ''x''
       = read [] [''x'' \<mapsto> JBool True] ''x''
   \<and> Map.empty ''x'' = (None :: jsval option)
   \<and> ''x'' \<notin> set object_prototype_members
   \<and> Tree_toggle Map.empty ''x'' True None ''x'' = Some (JBool True)
   \<and> Tree_toggle (Tree_toggle Map.empty ''x'' True None) ''x'' True None ''x''
       = Some (JBool False)"
proof -
  have m: "''x'' \<notin> set object_prototype_members"
    by (simp add: object_prototype_members_def)
  from m toggle_twice [of "[''x'' \<mapsto> JBool True]" "''x''" "[]"]
    toggle_twice [of Map.empty "''x''" "[]"]
  show ?thesis by simp
qed

text \<open>
  C4. A call \<open>toggle(id, false)\<close> sets the entry of \<open>id\<close> to \<open>false\<close>, whatever the entry
  was before (true, false, null or absent). The call is the one of the claim, with no
  ancestor list; an empty list does the same.
\<close>

theorem toggle_reveal_sets_false:
  "Tree_toggle s lab False None lab = Some (JBool False)
   \<and> Tree_toggle s lab False (Some []) lab = Some (JBool False)"
  by (simp add: Tree_toggle_def toggle_def setCollapsed_def)

text \<open>
  C5 (code defect). The claim: after each of two calls \<open>toggle(id, false, ...)\<close> in a row
  \<open>read(id)\<close> is \<open>false\<close>. With the entries \<open>a\<close> and \<open>x\<close> both \<open>true\<close>, the call
  \<open>toggle(x, false, [a])\<close> writes \<open>x\<close> to \<open>false\<close> and then overwrites the store with the
  captured state in which only \<open>a\<close> is changed: \<open>read(x)\<close> is \<open>true\<close> after the first call
  and after the second.
\<close>

theorem toggle_reveal_with_ancestor_stays_collapsed:
  "read [] (Tree_toggle [''a'' \<mapsto> JBool True, ''x'' \<mapsto> JBool True]
              ''x'' False (Some [''a''])) ''x''
   \<and> read [] (Tree_toggle
                (Tree_toggle [''a'' \<mapsto> JBool True, ''x'' \<mapsto> JBool True]
                   ''x'' False (Some [''a'']))
                ''x'' False (Some [''a''])) ''x''"
  by (simp add: Tree_toggle_def toggle_def setCollapsed_def js_truthy_string_def read_def
        js_get_def object_prototype_members_def)

text \<open>
  C6 (code defect). The claim: toggle never fails, and an unknown identifier gets a
  fresh entry. The model of \<open>toggle\<close> is a total function with no error branch, as the
  source has no \<open>throw\<close> and reads properties of an object only. The fresh entry is
  written and then lost when an ancestor passes the guard: with the single entry \<open>a\<close>
  \<open>true\<close>, the call \<open>toggle(x, true, [a])\<close> leaves a store with no entry for \<open>x\<close>.
\<close>

theorem toggle_unknown_identifier_entry_lost:
  "[''a'' \<mapsto> JBool True] ''x'' = None
   \<and> Tree_toggle [''a'' \<mapsto> JBool True] ''x'' True (Some [''a'']) ''x'' = None
   \<and> Tree_toggle [''a'' \<mapsto> JBool True] ''x'' True (Some [''a'']) ''a'' = Some (JBool False)"
  by (simp add: Tree_toggle_def toggle_def setCollapsed_def js_truthy_string_def js_get_def
        object_prototype_members_def)

text \<open>
  C7. No call of toggle deletes an entry: an identifier that has an entry in the store
  before the call has one after it.
\<close>

theorem toggle_keeps_entries:
  "s k \<noteq> None \<Longrightarrow> Tree_toggle s lab tc parents k \<noteq> None"
proof (cases parents)
  case None
  assume "s k \<noteq> None"
  with None show ?thesis by (simp add: Tree_toggle_None)
next
  case (Some ps)
  assume "s k \<noteq> None"
  with Some show ?thesis by (cases "forced s ps = []") (simp_all add: Tree_toggle_Some)
qed

theorem toggle_keeps_entries_witness:
  "[''a'' \<mapsto> JBool True] ''a'' \<noteq> None
   \<and> Tree_toggle [''a'' \<mapsto> JBool True] ''x'' True (Some [''b'']) ''a'' \<noteq> None"
proof -
  have h: "[''a'' \<mapsto> JBool True] ''a'' \<noteq> None" by simp
  from h toggle_keeps_entries [of "[''a'' \<mapsto> JBool True]" "''a''" "''x''" True "Some [''b'']"]
  show ?thesis by simp
qed

text \<open>
  C9 (corrected). The claim: for an identifier with no entry, \<open>toggle(id, true)\<close> stores
  \<open>true\<close>, because negating a missing entry yields \<open>true\<close>. The store is a plain object:
  for an identifier that names a member inherited from \<open>Object.prototype\<close>, the read
  \<open>collapsed[id]\<close> returns the inherited member, which is truthy, and the call stores
  \<open>false\<close>.
\<close>

theorem toggle_inherited_member_stores_false:
  "Map.empty ''constructor'' = (None :: jsval option)
   \<and> Tree_toggle Map.empty ''constructor'' True None ''constructor'' = Some (JBool False)"
  by (simp add: Tree_toggle_def toggle_def setCollapsed_def js_get_def
        object_prototype_members_def)

text \<open>
  C9 as amended. For an identifier that has no entry and names no member inherited from
  \<open>Object.prototype\<close>, \<open>toggle(id, true)\<close> stores \<open>true\<close>: the negation of the missing
  entry, not of the value \<open>read\<close> gives it.
\<close>

theorem toggle_absent_stores_true:
  "s lab = None \<Longrightarrow> lab \<notin> set object_prototype_members
   \<Longrightarrow> Tree_toggle s lab True None lab = Some (JBool True)"
  by (simp add: Tree_toggle_def toggle_def setCollapsed_def js_get_def)

theorem toggle_absent_stores_true_witness:
  "Map.empty ''x'' = (None :: jsval option)
   \<and> ''x'' \<notin> set object_prototype_members
   \<and> Tree_toggle Map.empty ''x'' True None ''x'' = Some (JBool True)"
proof -
  have h: "Map.empty ''x'' = (None :: jsval option)" by simp
  have m: "''x'' \<notin> set object_prototype_members"
    by (simp add: object_prototype_members_def)
  from h m toggle_absent_stores_true [of Map.empty "''x''"] show ?thesis by simp
qed

text \<open>
  C10 (corrected). The claim: after a call of toggle the store has no entry created or
  modified for any falsy identifier of the ancestor list. The ancestor loop skips the
  empty string, but the first step of toggle writes the entry of the toggled identifier
  whatever it is: when the toggled identifier is itself the empty string, and is listed
  among the ancestors, its entry is created.
\<close>

theorem toggle_falsy_identifier_written:
  "\<not> js_truthy_string [] \<and> Map.empty [] = (None :: jsval option)
   \<and> Tree_toggle Map.empty [] True (Some [[]]) [] = Some (JBool True)"
  by (simp add: Tree_toggle_def toggle_def setCollapsed_def js_truthy_string_def js_get_def
        object_prototype_members_def)

text \<open>
  C10 as amended. A falsy ancestor identifier (the empty string) is skipped by the
  ancestor loop: whatever the store and the ancestor list, after a call of toggle whose
  toggled identifier is another one, the entry of the falsy identifier is what it was
  before, absent if it was absent.
\<close>

theorem toggle_skips_falsy_ancestor:
  "\<not> js_truthy_string p \<Longrightarrow> p \<noteq> lab \<Longrightarrow> Tree_toggle s lab tc parents p = s p"
proof (cases parents)
  case None
  assume "p \<noteq> lab"
  with None show ?thesis by (simp add: Tree_toggle_None)
next
  case (Some ps)
  assume falsy: "\<not> js_truthy_string p" and other: "p \<noteq> lab"
  show ?thesis
  proof (cases "forced s ps = []")
    case True
    with Some other show ?thesis by (simp add: Tree_toggle_Some)
  next
    case False
    from last_forced_guard [OF False] falsy have "last (forced s ps) \<noteq> p"
      by (auto simp: js_truthy_string_def)
    with Some False show ?thesis by (simp add: Tree_toggle_Some)
  qed
qed

theorem toggle_skips_falsy_ancestor_witness:
  "\<not> js_truthy_string [] \<and> [] \<noteq> ''x''
   \<and> Tree_toggle [''a'' \<mapsto> JBool True] ''x'' True (Some ([[], ''a''])) [] = None"
proof -
  have h1: "\<not> js_truthy_string []" by (simp add: js_truthy_string_def)
  have h2: "[] \<noteq> ''x''" by simp
  from h1 h2 toggle_skips_falsy_ancestor [OF h1 h2, of "[''a'' \<mapsto> JBool True]" True "Some ([[], ''a''])"]
  show ?thesis by simp
qed

subsection \<open>Further properties of toggle\<close>

text \<open>
  The store after a call with an ancestor list: the state captured at render time with
  one entry changed, that of the last ancestor that passes the guard, or that of the
  toggled identifier when no ancestor passes it.
\<close>

theorem toggle_final_store:
  "Tree_toggle s lab tc (Some ps) =
     (if forced s ps = []
      then s(lab \<mapsto> JBool (if \<not> tc then False else js_not (js_get s lab)))
      else s(last (forced s ps) \<mapsto> JBool False))"
  by (rule Tree_toggle_Some)

text \<open>
  A reveal repeated with the same arguments changes nothing: the second call
  \<open>toggle(id, false, ancestors)\<close> leaves the whole store as the first call left it.
\<close>

theorem toggle_reveal_idempotent:
  "Tree_toggle (Tree_toggle s lab False parents) lab False parents
     = Tree_toggle s lab False parents"
proof (cases parents)
  case None
  then show ?thesis by (simp add: Tree_toggle_None)
next
  case (Some ps)
  show ?thesis
  proof (cases "forced s ps = []")
    case True
    from forced_after_own_write [OF True, of lab]
    have "forced (s(lab \<mapsto> JBool False)) ps = []
          \<or> last (forced (s(lab \<mapsto> JBool False)) ps) = lab"
      by (metis last_in_set singletonD subsetD)
    with True Some show ?thesis
      by (auto simp: Tree_toggle_Some)
  next
    case False
    with Some forced_after_ancestor_write [OF False] show ?thesis
      by (simp add: Tree_toggle_Some)
  qed
qed

section \<open>The tree of a set of pages\<close>

lemma seg_insert_path [simp]: "seg (insert_path ss a t) = seg t"
  by (cases ss) simp_all

lemma seg_sort_children [simp]: "seg (sort_children t) = seg t"
  by (cases t) simp

lemma nil_in_npaths [simp]: "[] \<in> npaths t"
  by (cases t) simp

lemma npaths_kids: "npaths t = insert [] (\<Union>c\<in>set (kids t). (#) (raw (seg c)) ` npaths c)"
  by (cases t) simp

lemma ppaths_kids:
  "ppaths t = (if page t = None then {} else {[]}) \<union> (\<Union>c\<in>set (kids t). (#) (raw (seg c)) ` ppaths c)"
  by (cases t) simp

lemma npaths_insert_kid:
  assumes "\<And>c. seg (f c) = seg c" and "\<And>c. npaths (f c) = npaths c \<union> X"
  shows "(\<Union>c\<in>set (insert_kid f s cs). (#) (raw (seg c)) ` npaths c)
         = (\<Union>c\<in>set cs. (#) (raw (seg c)) ` npaths c) \<union> (#) (raw s) ` insert [] X"
proof (induction cs)
  case Nil
  show ?case by (simp add: assms)
next
  case (Cons c cs)
  have "[] \<in> npaths c" by simp
  then have "(#) (raw s) ` insert [] (npaths c) = (#) (raw s) ` npaths c"
    by (simp add: insert_absorb)
  with Cons show ?case
    by (auto simp: assms image_Un)
qed

lemma prefix_set_Cons: "{q. prefix q (r # rs)} = insert [] ((#) r ` {q. prefix q rs})"
  by (auto simp: prefix_Cons)

lemma npaths_insert_path:
  "npaths (insert_path ss a t) = npaths t \<union> {q. prefix q (map raw ss)}"
proof (induction ss arbitrary: t)
  case Nil
  show ?case by (cases t) simp
next
  case (Cons s ss)
  have "(\<Union>c\<in>set (insert_kid (insert_path ss a) s (kids t)). (#) (raw (seg c)) ` npaths c)
        = (\<Union>c\<in>set (kids t). (#) (raw (seg c)) ` npaths c)
          \<union> (#) (raw s) ` insert [] {q. prefix q (map raw ss)}"
    by (rule npaths_insert_kid) (simp_all add: Cons.IH)
  moreover have "insert [] {q. prefix q (map raw ss)} = {q. prefix q (map raw ss)}"
    by auto
  ultimately show ?case
    by (simp add: prefix_set_Cons npaths_kids [of t])
qed

lemma ppaths_insert_kid:
  assumes "\<And>c. seg (f c) = seg c" and "\<And>c. ppaths (f c) = ppaths c \<union> Y"
  shows "(\<Union>c\<in>set (insert_kid f s cs). (#) (raw (seg c)) ` ppaths c)
         = (\<Union>c\<in>set cs. (#) (raw (seg c)) ` ppaths c) \<union> (#) (raw s) ` Y"
  by (induction cs) (auto simp: assms image_Un)

lemma ppaths_insert_path:
  "ppaths (insert_path ss a t) = insert (map raw ss) (ppaths t)"
proof (induction ss arbitrary: t)
  case Nil
  show ?case by (cases t) auto
next
  case (Cons s ss)
  have "(\<Union>c\<in>set (insert_kid (insert_path ss a) s (kids t)). (#) (raw (seg c)) ` ppaths c)
        = (\<Union>c\<in>set (kids t). (#) (raw (seg c)) ` ppaths c) \<union> (#) (raw s) ` {map raw ss}"
    by (rule ppaths_insert_kid) (simp_all add: Cons.IH)
  then show ?case
    by (simp add: ppaths_kids [of t]) 
qed


lemma raws_insert_kid:
  assumes "\<And>c. seg (f c) = seg c"
  shows "(\<lambda>c. raw (seg c)) ` set (insert_kid f s cs) = insert (raw s) ((\<lambda>c. raw (seg c)) ` set cs)"
  by (induction cs) (auto simp: assms)

lemma well_formed_kids:
  "well_formed t =
     (distinct (map (\<lambda>c. raw (seg c)) (kids t))
      \<and> (\<forall>c\<in>set (kids t). decompose_segment (raw (seg c)) = Inr (seg c) \<and> well_formed c))"
  by (cases t) simp

lemma well_formed_insert_kid:
  assumes f_seg: "\<And>c. seg (f c) = seg c"
    and f_wf: "\<And>c. well_formed c \<Longrightarrow> well_formed (f c)"
    and s: "decompose_segment (raw s) = Inr s"
    and cs: "distinct (map (\<lambda>c. raw (seg c)) cs)"
      "\<forall>c\<in>set cs. decompose_segment (raw (seg c)) = Inr (seg c) \<and> well_formed c"
  shows "distinct (map (\<lambda>c. raw (seg c)) (insert_kid f s cs))
         \<and> (\<forall>c\<in>set (insert_kid f s cs).
               decompose_segment (raw (seg c)) = Inr (seg c) \<and> well_formed c)"
  using cs
proof (induction cs)
  case Nil
  have "well_formed (Builder s None [])" by simp
  then show ?case by (simp add: f_seg f_wf s)
next
  case (Cons c cs)
  show ?case
  proof (cases "raw (seg c) = raw s")
    case True
    with Cons.prems show ?thesis by (simp add: f_seg f_wf)
  next
    case False
    have "raw (seg c) \<notin> (\<lambda>c. raw (seg c)) ` set (insert_kid f s cs)"
      using False Cons.prems(1) by (simp add: raws_insert_kid [OF f_seg]) 
    with False Cons show ?thesis by simp
  qed
qed

lemma well_formed_insert_path:
  "well_formed t \<Longrightarrow> \<forall>s\<in>set ss. decompose_segment (raw s) = Inr s
   \<Longrightarrow> well_formed (insert_path ss a t)"
proof (induction ss arbitrary: t)
  case Nil
  then show ?case by (cases t) simp
next
  case (Cons s ss)
  from Cons.prems(1) have k: "distinct (map (\<lambda>c. raw (seg c)) (kids t))"
    "\<forall>c\<in>set (kids t). decompose_segment (raw (seg c)) = Inr (seg c) \<and> well_formed c"
    by (simp_all add: well_formed_kids [of t])
  have "distinct (map (\<lambda>c. raw (seg c)) (insert_kid (insert_path ss a) s (kids t)))
        \<and> (\<forall>c\<in>set (insert_kid (insert_path ss a) s (kids t)).
              decompose_segment (raw (seg c)) = Inr (seg c) \<and> well_formed c)"
  proof (rule well_formed_insert_kid [OF _ _ _ k])
    show "seg (insert_path ss a c) = seg c" for c by simp
    show "well_formed c \<Longrightarrow> well_formed (insert_path ss a c)" for c
      using Cons.IH Cons.prems(2) by simp
    show "decompose_segment (raw s) = Inr s"
      using Cons.prems(2) by simp
  qed
  then show ?case by simp
qed

lemma decompose_segment_raw: "decompose_segment r = Inr s \<Longrightarrow> raw s = r"
  by (auto simp: decompose_segment_def split: list.splits if_splits)

lemma decompose_segment_valid:
  "decompose_segment r = Inr s \<Longrightarrow> decompose_segment (raw s) = Inr s"
  by (simp add: decompose_segment_raw)

lemma decompose_segments_Inr:
  "decompose_segments rs = Inr ss \<Longrightarrow>
     map raw ss = rs \<and> (\<forall>s\<in>set ss. decompose_segment (raw s) = Inr s)"
proof (induction rs arbitrary: ss)
  case Nil
  then show ?case by auto
next
  case (Cons r rs)
  from Cons.prems obtain s ss' where s: "decompose_segment r = Inr s"
    and ss': "decompose_segments rs = Inr ss'" and ss: "ss = s # ss'"
    by (auto split: sum.splits)
  from Cons.IH [OF ss'] decompose_segment_raw [OF s] decompose_segment_valid [OF s] ss
  show ?case by simp
qed

lemma decompose_Inr:
  "decompose p = Inr ss \<Longrightarrow>
     map raw ss = p \<and> (\<forall>s\<in>set ss. decompose_segment (raw s) = Inr s)"
  by (simp add: decompose_def decompose_segments_Inr split: if_splits)

lemma decompose_pages_Inr:
  "decompose_pages ps = Inr ds \<Longrightarrow>
     map (\<lambda>d. map raw (fst d)) ds = map path ps
     \<and> (\<forall>d\<in>set ds. \<forall>s\<in>set (fst d). decompose_segment (raw s) = Inr s)"
proof (induction ps arbitrary: ds)
  case Nil
  then show ?case by auto
next
  case (Cons p ps)
  from Cons.prems obtain ss ds' where ss: "decompose (path p) = Inr ss"
    and ds': "decompose_pages ps = Inr ds'" and ds: "ds = (ss, attributes p) # ds'"
    by (auto split: sum.splits)
  from Cons.IH [OF ds'] decompose_Inr [OF ss] ds
  show ?case by simp
qed

lemma decompose_pages_isl:
  "isl (decompose_pages ps) = (\<exists>p\<in>set ps. isl (decompose (path p)))"
  by (induction ps) (auto split: sum.splits)

lemma npaths_foldl:
  "npaths (foldl (\<lambda>t d. insert_path (fst d) (snd d) t) t ds)
   = npaths t \<union> (\<Union>d\<in>set ds. {q. prefix q (map raw (fst d))})"
  by (induction ds arbitrary: t) (auto simp: npaths_insert_path)

lemma ppaths_foldl:
  "ppaths (foldl (\<lambda>t d. insert_path (fst d) (snd d) t) t ds)
   = ppaths t \<union> (\<lambda>d. map raw (fst d)) ` set ds"
  by (induction ds arbitrary: t) (auto simp: ppaths_insert_path)

lemma well_formed_foldl:
  "well_formed t \<Longrightarrow> \<forall>d\<in>set ds. \<forall>s\<in>set (fst d). decompose_segment (raw s) = Inr s
   \<Longrightarrow> well_formed (foldl (\<lambda>t d. insert_path (fst d) (snd d) t) t ds)"
  by (induction ds arbitrary: t) (simp_all add: well_formed_insert_path)

lemma seg_foldl [simp]:
  "seg (foldl (\<lambda>t d. insert_path (fst d) (snd d) t) t ds) = seg t"
  by (induction ds arbitrary: t) simp_all

lemma seg_shapeB [simp]: "seg (shapeB t) = seg t"
  by (cases t) (simp add: shapeB_def)

lemma kid_paths:
  assumes d: "distinct (map (\<lambda>c. raw (seg c)) cs)" and c: "c \<in> set cs"
  shows "N c = {q. raw (seg c) # q \<in> (\<Union>c\<in>set cs. (#) (raw (seg c)) ` N c)}"
proof (intro set_eqI iffI)
  fix q
  assume "q \<in> N c"
  with c show "q \<in> {q. raw (seg c) # q \<in> (\<Union>c\<in>set cs. (#) (raw (seg c)) ` N c)}"
    by blast
next
  fix q
  assume "q \<in> {q. raw (seg c) # q \<in> (\<Union>c\<in>set cs. (#) (raw (seg c)) ` N c)}"
  then obtain d where dd: "d \<in> set cs" "raw (seg d) = raw (seg c)" "q \<in> N d"
    by auto
  from d have "inj_on (\<lambda>c. raw (seg c)) (set cs)"
    by (simp add: distinct_map)
  with dd c have "d = c" by (simp add: inj_on_def)
  with dd show "q \<in> N c" by simp
qed

lemma kid_raws:
  "(\<lambda>c. raw (seg c)) ` set cs = {r. [r] \<in> (\<Union>c\<in>set cs. (#) (raw (seg c)) ` npaths c)}"
proof (intro set_eqI iffI)
  fix r
  assume "r \<in> (\<lambda>c. raw (seg c)) ` set cs"
  then obtain c where "c \<in> set cs" "r = raw (seg c)" by blast
  moreover have "[] \<in> npaths c" by simp
  ultimately show "r \<in> {r. [r] \<in> (\<Union>c\<in>set cs. (#) (raw (seg c)) ` npaths c)}"
    by blast
next
  fix r
  assume "r \<in> {r. [r] \<in> (\<Union>c\<in>set cs. (#) (raw (seg c)) ` npaths c)}"
  then show "r \<in> (\<lambda>c. raw (seg c)) ` set cs" by blast
qed

lemma kid_union_eq:
  assumes "insert [] (\<Union>c\<in>set cs. (#) (raw (seg c)) ` N c)
           = insert [] (\<Union>c\<in>set cs'. (#) (raw (seg c)) ` N' c)"
  shows "(\<Union>c\<in>set cs. (#) (raw (seg c)) ` N c) = (\<Union>c\<in>set cs'. (#) (raw (seg c)) ` N' c)"
proof -
  have "[] \<notin> (\<Union>c\<in>set cs. (#) (raw (seg c)) ` N c)"
    and "[] \<notin> (\<Union>c\<in>set cs'. (#) (raw (seg c)) ` N' c)"
    by blast+
  with assms show ?thesis by (rule insert_ident [THEN iffD1, rotated 2])
qed


lemma sibling_unique_kid:
  assumes "sibling_unique (insert [] (\<Union>c\<in>set cs. (#) (raw (seg c)) ` npaths c))"
    and "c \<in> set cs"
  shows "sibling_unique (npaths c)"
  unfolding sibling_unique_def
proof (intro allI impI)
  fix pre r r'
  assume a: "pre @ [r] \<in> npaths c" and b: "pre @ [r'] \<in> npaths c"
    and k: "same_sort_key r r'"
  let ?N = "insert [] (\<Union>c\<in>set cs. (#) (raw (seg c)) ` npaths c)"
  from a assms(2) have "(raw (seg c) # pre) @ [r] \<in> ?N" by auto
  moreover from b assms(2) have "(raw (seg c) # pre) @ [r'] \<in> ?N" by auto
  ultimately show "r = r'"
    using assms(1) k unfolding sibling_unique_def by blast
qed

lemma sibling_unique_keys:
  assumes su: "sibling_unique (insert [] (\<Union>c\<in>set cs. (#) (raw (seg c)) ` npaths c))"
    and d: "distinct (map (\<lambda>c. raw (seg c)) cs)"
    and v: "\<forall>c\<in>set cs. decompose_segment (raw (seg c)) = Inr (seg c)"
  shows "inj_on node_key (set cs)"
proof (rule inj_onI)
  fix c e
  assume c: "c \<in> set cs" and e: "e \<in> set cs"
    and k: "node_key c = node_key e"
  let ?N = "insert [] (\<Union>c\<in>set cs. (#) (raw (seg c)) ` npaths c)"
  have nil: "[] \<in> npaths c" "[] \<in> npaths e" by simp_all
  from c nil(1) have "[] @ [raw (seg c)] \<in> ?N" by (simp add: image_iff) blast
  moreover from e nil(2) have "[] @ [raw (seg e)] \<in> ?N" by (simp add: image_iff) blast
  moreover from v c e k have "same_sort_key (raw (seg c)) (raw (seg e))"
    by (simp add: same_sort_key_def node_key_def)
  ultimately have "raw (seg c) = raw (seg e)"
    using su unfolding sibling_unique_def by blast
  moreover from d have "inj_on (\<lambda>c. raw (seg c)) (set cs)"
    by (simp add: distinct_map)
  ultimately show "c = e"
    using c e by (simp add: inj_on_def)
qed


lemma node_key_shapeB [simp]: "node_key (shapeB t) = node_key t"
  by (simp add: node_key_def)

lemma node_key_sort_children [simp]: "node_key (sort_children t) = node_key t"
  by (simp add: node_key_def)

lemma shapeB_Builder:
  "shapeB (Builder s p cs) = Builder s (map_option (\<lambda>_. ()) p) (map shapeB cs)"
  by (simp add: shapeB_def)

lemma union_split:
  assumes "a \<notin> A" "a \<notin> B" "X \<subseteq> {a}" "Y \<subseteq> {a}" "X \<union> A = Y \<union> B"
  shows "A = B \<and> X = Y"
  using assms by blast

lemma ppaths_split:
  assumes "(if p = None then {} else {[]}) \<union> (\<Union>c\<in>set cs. (#) (raw (seg c)) ` ppaths c)
           = (if p' = None then {} else {[]}) \<union> (\<Union>c\<in>set cs'. (#) (raw (seg c)) ` ppaths c)"
  shows "(p = None) = (p' = None)
    \<and> (\<Union>c\<in>set cs. (#) (raw (seg c)) ` ppaths c) = (\<Union>c\<in>set cs'. (#) (raw (seg c)) ` ppaths c)"
proof -
  let ?A = "\<Union>c\<in>set cs. (#) (raw (seg c)) ` ppaths c"
  let ?B = "\<Union>c\<in>set cs'. (#) (raw (seg c)) ` ppaths c"
  let ?X = "if p = None then {} else {[]::string list}"
  let ?Y = "if p' = None then {} else {[]::string list}"
  have nA: "[] \<notin> ?A" by (simp add: image_iff)
  have nB: "[] \<notin> ?B" by (simp add: image_iff)
  have sX: "?X \<subseteq> {[]}" by simp
  have sY: "?Y \<subseteq> {[]}" by simp
  from union_split [OF nA nB sX sY assms] have "?A = ?B" and xy: "?X = ?Y" by simp_all
  from xy have "(p = None) = (p' = None)"
    by (cases p; cases p') (simp_all split: if_splits)
  with \<open>?A = ?B\<close> show ?thesis by simp
qed

lemma sorted_shape_unique:
  "well_formed t \<Longrightarrow> well_formed t' \<Longrightarrow> seg t = seg t' \<Longrightarrow> npaths t = npaths t'
   \<Longrightarrow> ppaths t = ppaths t' \<Longrightarrow> sibling_unique (npaths t)
   \<Longrightarrow> shapeB (sort_children t) = shapeB (sort_children t')"
proof (induction t arbitrary: t')
  case (Builder s p cs)
  obtain s' p' cs' where t': "t' = Builder s' p' cs'" by (cases t')
  from Builder.prems(1) have d: "distinct (map (\<lambda>c. raw (seg c)) cs)"
    and v: "\<forall>c\<in>set cs. decompose_segment (raw (seg c)) = Inr (seg c)"
    and w: "\<forall>c\<in>set cs. well_formed c"
    by simp_all
  from Builder.prems(2) t' have d': "distinct (map (\<lambda>c. raw (seg c)) cs')"
    and v': "\<forall>c\<in>set cs'. decompose_segment (raw (seg c)) = Inr (seg c)"
    and w': "\<forall>c\<in>set cs'. well_formed c"
    by simp_all
  from Builder.prems(3) t' have s: "s = s'" by simp
  from Builder.prems(4) t'
  have kn: "(\<Union>c\<in>set cs. (#) (raw (seg c)) ` npaths c) = (\<Union>c\<in>set cs'. (#) (raw (seg c)) ` npaths c)"
    by (intro kid_union_eq) simp
  from Builder.prems(5) t'
  have "(p = None) = (p' = None)
     \<and> (\<Union>c\<in>set cs. (#) (raw (seg c)) ` ppaths c) = (\<Union>c\<in>set cs'. (#) (raw (seg c)) ` ppaths c)"
    by (intro ppaths_split) simp
  then have pp: "(p = None) = (p' = None)"
    and kp: "(\<Union>c\<in>set cs. (#) (raw (seg c)) ` ppaths c) = (\<Union>c\<in>set cs'. (#) (raw (seg c)) ` ppaths c)"
    by simp_all
  from Builder.prems(6)
  have su: "sibling_unique (insert [] (\<Union>c\<in>set cs. (#) (raw (seg c)) ` npaths c))"
    by simp
  with kn have su': "sibling_unique (insert [] (\<Union>c\<in>set cs'. (#) (raw (seg c)) ` npaths c))"
    by simp
  have match: "shapeB (sort_children c) = shapeB (sort_children c')"
    if c: "c \<in> set cs" and c': "c' \<in> set cs'" and r: "raw (seg c) = raw (seg c')" for c c'
  proof (rule Builder.IH [OF c])
    show "well_formed c" using w c by simp
    show "well_formed c'" using w' c' by simp
    from v c have "decompose_segment (raw (seg c)) = Inr (seg c)" by simp
    moreover from v' c' have "decompose_segment (raw (seg c')) = Inr (seg c')" by simp
    ultimately show "seg c = seg c'" using r by (metis Inr_inject)
    have "npaths c = {q. raw (seg c) # q \<in> (\<Union>c\<in>set cs. (#) (raw (seg c)) ` npaths c)}"
      by (rule kid_paths [OF d c])
    also have "\<dots> = {q. raw (seg c') # q \<in> (\<Union>c\<in>set cs'. (#) (raw (seg c)) ` npaths c)}"
      by (simp only: kn r)
    also have "\<dots> = npaths c'"
      by (rule kid_paths [OF d' c', symmetric])
    finally show "npaths c = npaths c'" .
    have "ppaths c = {q. raw (seg c) # q \<in> (\<Union>c\<in>set cs. (#) (raw (seg c)) ` ppaths c)}"
      by (rule kid_paths [OF d c])
    also have "\<dots> = {q. raw (seg c') # q \<in> (\<Union>c\<in>set cs'. (#) (raw (seg c)) ` ppaths c)}"
      by (simp only: kp r)
    also have "\<dots> = ppaths c'"
      by (rule kid_paths [OF d' c', symmetric])
    finally show "ppaths c = ppaths c'" .
    show "sibling_unique (npaths c)"
      by (rule sibling_unique_kid [OF su c])
  qed
  have raws: "(\<lambda>c. raw (seg c)) ` set cs = (\<lambda>c. raw (seg c)) ` set cs'"
    by (simp only: kid_raws kn)
  define A where "A = map shapeB (sort_key node_key (map sort_children cs))"
  define A' where "A' = map shapeB (sort_key node_key (map sort_children cs'))"
  have setA: "set A = (\<lambda>c. shapeB (sort_children c)) ` set cs"
    by (simp add: A_def image_image)
  have setA': "set A' = (\<lambda>c. shapeB (sort_children c)) ` set cs'"
    by (simp add: A'_def image_image)
  have sub: "set A \<subseteq> set A'"
  proof
    fix x assume "x \<in> set A"
    then obtain c where c: "c \<in> set cs" and x: "x = shapeB (sort_children c)"
      unfolding setA by blast
    from c have "raw (seg c) \<in> (\<lambda>c. raw (seg c)) ` set cs'"
      unfolding raws [symmetric] by (rule imageI)
    then obtain c' where c': "c' \<in> set cs'" and r: "raw (seg c) = raw (seg c')"
      by blast
    from match [OF c c' r] x c' show "x \<in> set A'"
      unfolding setA' by simp
  qed
  have sup: "set A' \<subseteq> set A"
  proof
    fix x assume "x \<in> set A'"
    then obtain c' where c': "c' \<in> set cs'" and x: "x = shapeB (sort_children c')"
      unfolding setA' by blast
    from c' have "raw (seg c') \<in> (\<lambda>c. raw (seg c)) ` set cs"
      unfolding raws by (rule imageI)
    then obtain c where c: "c \<in> set cs" and r: "raw (seg c) = raw (seg c')"
      by force
    from match [OF c c' r] x have "x = shapeB (sort_children c)" by simp
    with c show "x \<in> set A"
      unfolding setA by (rule image_eqI [rotated])
  qed
  from sub sup have sets: "set A = set A'" by (rule equalityI)
  have keysA: "map node_key A = map node_key (sort_key node_key (map sort_children cs))"
    by (simp add: A_def comp_def)
  have keysA': "map node_key A' = map node_key (sort_key node_key (map sort_children cs'))"
    by (simp add: A'_def comp_def)
  have sortedA: "sorted (map node_key A)"
    unfolding keysA by (rule sorted_sort_key)
  have sortedA': "sorted (map node_key A')"
    unfolding keysA' by (rule sorted_sort_key)
  have inj: "inj_on node_key (set cs)"
    by (rule sibling_unique_keys [OF su d v])
  have inj': "inj_on node_key (set cs')"
    by (rule sibling_unique_keys [OF su' d' v'])
  have dk: "distinct (map node_key cs)"
    using d inj by (simp add: distinct_map)
  have dk': "distinct (map node_key cs')"
    using d' inj' by (simp add: distinct_map)
  have "mset (map node_key A) = mset (map node_key cs)"
    unfolding keysA by (simp add: multiset.map_comp comp_def)
  then have distA: "distinct (map node_key A)"
    using dk by (metis mset_eq_imp_distinct_iff)
  have "mset (map node_key A') = mset (map node_key cs')"
    unfolding keysA' by (simp add: multiset.map_comp comp_def)
  then have distA': "distinct (map node_key A')"
    using dk' by (metis mset_eq_imp_distinct_iff)
  have injA: "inj_on node_key (set A \<union> set A')"
    unfolding sets [symmetric] Un_absorb setA
  proof (rule inj_onI)
    fix x y
    assume "x \<in> (\<lambda>c. shapeB (sort_children c)) ` set cs"
      and "y \<in> (\<lambda>c. shapeB (sort_children c)) ` set cs"
      and k: "node_key x = node_key y"
    then obtain c e where c: "c \<in> set cs" "x = shapeB (sort_children c)"
      and e: "e \<in> set cs" "y = shapeB (sort_children e)"
      by blast
    from k c e have "node_key c = node_key e" by simp
    with inj c e have "c = e" by (simp add: inj_on_def)
    with c e show "x = y" by simp
  qed
  have "A = A'"
    by (rule map_sorted_distinct_set_unique [OF injA sortedA distA sortedA' distA' sets])
  with s pp t' show ?case
    by (cases p; cases p') (simp_all add: shapeB_Builder A_def A'_def)
qed

lemma shape_finalize:
  "shape (finalize loc pre t) = finalize loc pre (shapeB t)"
proof (induction t arbitrary: pre)
  case (Builder s p cs)
  then show ?case
    by (cases p) (simp_all add: shape_def shapeB_def)
qed

lemma shape_finalize_root:
  "shape (finalize_root loc t) = finalize_root loc (shapeB t)"
proof -
  have "map (\<lambda>c. shape (finalize loc [] c)) (kids t) = map (finalize loc []) (kids (shapeB t))"
    by (cases t) (simp add: shape_finalize shapeB_Builder comp_def)
  then show ?thesis
    by (simp add: finalize_root_def shape_def comp_def)
qed

lemma unambiguous_sibling_unique:
  assumes "unambiguous paths"
  shows "sibling_unique (insert [] (\<Union>p\<in>set paths. {q. prefix q p}))"
  unfolding sibling_unique_def
proof (intro allI impI)
  fix pre r r'
  assume a: "pre @ [r] \<in> insert [] (\<Union>p\<in>set paths. {q. prefix q p})"
    and b: "pre @ [r'] \<in> insert [] (\<Union>p\<in>set paths. {q. prefix q p})"
    and k: "same_sort_key r r'"
  from a obtain p where p: "p \<in> set paths" "prefix (pre @ [r]) p" by auto
  from b obtain q where q: "q \<in> set paths" "prefix (pre @ [r']) q" by auto
  from p(2) obtain z where pz: "p = pre @ r # z" by (auto simp: prefix_def)
  from q(2) obtain y where qy: "q = pre @ r' # y" by (auto simp: prefix_def)
  have i: "length pre \<in> {..<min (length p) (length q)}" by (simp add: pz qy)
  have tk: "take (length pre) p = take (length pre) q" by (simp add: pz qy)
  have nth: "p ! length pre = r" "q ! length pre = r'" by (simp_all add: pz qy)
  from assms have u: "\<forall>p\<in>set paths. \<forall>q\<in>set paths. \<forall>i\<in>{..<min (length p) (length q)}.
      take i p = take i q \<and> same_sort_key (p ! i) (q ! i) \<longrightarrow> p ! i = q ! i"
    unfolding unambiguous_def .
  from bspec [OF bspec [OF bspec [OF u p(1)] q(1)] i]
  have "take (length pre) p = take (length pre) q
          \<and> same_sort_key (p ! length pre) (q ! length pre)
        \<longrightarrow> p ! length pre = q ! length pre" .
  with tk k nth show "r = r'" by simp
qed

lemma npaths_insert_all:
  assumes "decompose_pages ps = Inr ds"
  shows "npaths (insert_all ds) = insert [] (\<Union>p\<in>set (map path ps). {q. prefix q p})"
proof -
  from decompose_pages_Inr [OF assms]
  have "map (\<lambda>d. map raw (fst d)) ds = map path ps" by simp
  then have "(\<lambda>d. map raw (fst d)) ` set ds = set (map path ps)"
    by (metis set_map)
  moreover have "(\<Union>d\<in>set ds. {q. prefix q (map raw (fst d))})
                 = (\<Union>p\<in>(\<lambda>d. map raw (fst d)) ` set ds. {q. prefix q p})"
    by blast
  ultimately have "(\<Union>d\<in>set ds. {q. prefix q (map raw (fst d))}) = (\<Union>p\<in>set (map path ps). {q. prefix q p})"
    by (simp only:)
  then show ?thesis
    by (simp only: insert_all_def npaths_foldl) (simp add: empty_root_def)
qed

lemma ppaths_insert_all:
  assumes "decompose_pages ps = Inr ds"
  shows "ppaths (insert_all ds) = set (map path ps)"
proof -
  from decompose_pages_Inr [OF assms]
  have "map (\<lambda>d. map raw (fst d)) ds = map path ps" by simp
  then have "(\<lambda>d. map raw (fst d)) ` set ds = set (map path ps)"
    by (metis set_map)
  then show ?thesis
    by (simp only: insert_all_def ppaths_foldl) (simp add: empty_root_def)
qed

lemma well_formed_insert_all:
  assumes "decompose_pages ps = Inr ds"
  shows "well_formed (insert_all ds)"
proof -
  from decompose_pages_Inr [OF assms]
  have "\<forall>d\<in>set ds. \<forall>s\<in>set (fst d). decompose_segment (raw s) = Inr s" by simp
  moreover have "well_formed (empty_root :: 'a Builder)" by (simp add: empty_root_def)
  ultimately show ?thesis
    unfolding insert_all_def by (rule well_formed_foldl [rotated])
qed

lemma seg_insert_all [simp]: "seg (insert_all ds) = root_segment"
  by (simp add: insert_all_def empty_root_def)

subsection \<open>The claim about build\<close>

text \<open>
  The model on the example of section 8 of the specification: three pages, the current
  location on the second.
\<close>

lemma build_example:
  "build
     [\<lparr>path = [''200-concepts'', ''100-components'', ''01-schema''], attributes = ''Schema''\<rparr>,
      \<lparr>path = [''200-concepts'', ''100-components'', ''02-client''], attributes = ''Client''\<rparr>,
      \<lparr>path = [''300-guides'', ''01-intro''], attributes = ''Intro''\<rparr>]
     [''200-concepts'', ''100-components'', ''02-client'']
   = Inr (TreeNode [] [] None None
       [TreeNode ''200-concepts'' ''concepts'' None None
         [TreeNode ''200-concepts/100-components'' ''components'' None None
           [TreeNode ''200-concepts/100-components/01-schema'' ''schema''
              (Some [''200-concepts'', ''100-components'', ''01-schema''])
              (Some ''Schema'') [] 3 False,
            TreeNode ''200-concepts/100-components/02-client'' ''client''
              (Some [''200-concepts'', ''100-components'', ''02-client''])
              (Some ''Client'') [] 3 True]
           2 False]
         1 False,
        TreeNode ''300-guides'' ''guides'' None None
         [TreeNode ''300-guides/01-intro'' ''intro''
            (Some [''300-guides'', ''01-intro'']) (Some ''Intro'') [] 2 False]
         1 False]
       0 False)"
  by code_simp

text \<open>
  C8 (corrected). The claim: for two input sequences that are permutations of each
  other, build gives trees of identical shape and identical child ordering at every
  node. The raw segments \<open>01-a\<close> and \<open>1-a\<close> are different children of the root (the walk
  matches children by raw value) with the same sort key \<open>(1, a)\<close>; the sort by
  \<open>(sortKey, label)\<close> is stable and leaves them in the order of their creation, which is
  the order of the input. The two orders of the same two pages give different trees.
\<close>

theorem build_order_of_equal_keys:
  "mset [\<lparr>path = [''01-a''], attributes = ()\<rparr>, \<lparr>path = [''1-a''], attributes = ()\<rparr>]
     = mset [\<lparr>path = [''1-a''], attributes = ()\<rparr>, \<lparr>path = [''01-a''], attributes = ()\<rparr>]
   \<and> map_sum id shape
         (build [\<lparr>path = [''01-a''], attributes = ()\<rparr>, \<lparr>path = [''1-a''], attributes = ()\<rparr>] [])
       = Inr (TreeNode [] [] None None
                [TreeNode ''01-a'' ''a'' (Some [''01-a'']) (Some ()) [] 1 False,
                 TreeNode ''1-a'' ''a'' (Some [''1-a'']) (Some ()) [] 1 False]
                0 False)
   \<and> map_sum id shape
         (build [\<lparr>path = [''1-a''], attributes = ()\<rparr>, \<lparr>path = [''01-a''], attributes = ()\<rparr>] [])
       = Inr (TreeNode [] [] None None
                [TreeNode ''1-a'' ''a'' (Some [''1-a'']) (Some ()) [] 1 False,
                 TreeNode ''01-a'' ''a'' (Some [''01-a'']) (Some ()) [] 1 False]
                0 False)
   \<and> map_sum id shape
         (build [\<lparr>path = [''01-a''], attributes = ()\<rparr>, \<lparr>path = [''1-a''], attributes = ()\<rparr>] [])
       \<noteq> map_sum id shape
           (build [\<lparr>path = [''1-a''], attributes = ()\<rparr>, \<lparr>path = [''01-a''], attributes = ()\<rparr>] [])"
proof (intro conjI)
  show "mset [\<lparr>path = [''01-a''], attributes = ()\<rparr>, \<lparr>path = [''1-a''], attributes = ()\<rparr>]
     = mset [\<lparr>path = [''1-a''], attributes = ()\<rparr>, \<lparr>path = [''01-a''], attributes = ()\<rparr>]"
    by simp
  show "map_sum id shape
         (build [\<lparr>path = [''01-a''], attributes = ()\<rparr>, \<lparr>path = [''1-a''], attributes = ()\<rparr>] [])
       = Inr (TreeNode [] [] None None
                [TreeNode ''01-a'' ''a'' (Some [''01-a'']) (Some ()) [] 1 False,
                 TreeNode ''1-a'' ''a'' (Some [''1-a'']) (Some ()) [] 1 False]
                0 False)"
    by code_simp
  show "map_sum id shape
         (build [\<lparr>path = [''1-a''], attributes = ()\<rparr>, \<lparr>path = [''01-a''], attributes = ()\<rparr>] [])
       = Inr (TreeNode [] [] None None
                [TreeNode ''1-a'' ''a'' (Some [''1-a'']) (Some ()) [] 1 False,
                 TreeNode ''01-a'' ''a'' (Some [''01-a'']) (Some ()) [] 1 False]
                0 False)"
    by code_simp
  show "map_sum id shape
         (build [\<lparr>path = [''01-a''], attributes = ()\<rparr>, \<lparr>path = [''1-a''], attributes = ()\<rparr>] [])
       \<noteq> map_sum id shape
           (build [\<lparr>path = [''1-a''], attributes = ()\<rparr>, \<lparr>path = [''01-a''], attributes = ()\<rparr>] [])"
    by code_simp
qed

text \<open>
  C8 as amended. For two input sequences that are permutations of each other, in which
  no two different raw segments under the same parent have the same \<open>(sortKey, label)\<close>,
  and the same current location, build gives the same error or trees of identical
  shape: the same identifier, label, path, depth and activity at every node and the
  same child ordering. (The display attributes are left out of the comparison: for a
  path given twice the last record wins.)
\<close>

theorem build_permutation_invariant:
  assumes perm: "mset ps = mset ps'" and un: "unambiguous (map path ps)"
  shows "map_sum id shape (build ps loc) = map_sum id shape (build ps' loc)"
proof -
  from perm have sets: "set ps = set ps'" by (rule mset_eq_setD)
  then have isl: "isl (decompose_pages ps) = isl (decompose_pages ps')"
    by (simp add: decompose_pages_isl)
  show ?thesis
  proof (cases "decompose_pages ps")
    case (Inl e)
    with isl obtain e' where e': "decompose_pages ps' = Inl e'"
      by (cases "decompose_pages ps'") simp_all
    have "e = e'" by (cases e; cases e') simp
    with Inl e' show ?thesis by (simp add: build_def)
  next
    case (Inr ds)
    with isl obtain ds' where ds': "decompose_pages ps' = Inr ds'"
      by (cases "decompose_pages ps'") simp_all
    from sets have paths: "set (map path ps) = set (map path ps')" by simp
    have n: "npaths (insert_all ds) = npaths (insert_all ds')"
      by (simp only: npaths_insert_all [OF Inr] npaths_insert_all [OF ds'] paths)
    have p: "ppaths (insert_all ds) = ppaths (insert_all ds')"
      by (simp only: ppaths_insert_all [OF Inr] ppaths_insert_all [OF ds'] paths)
    have su: "sibling_unique (npaths (insert_all ds))"
      unfolding npaths_insert_all [OF Inr] by (rule unambiguous_sibling_unique [OF un])
    have "shapeB (sort_children (insert_all ds)) = shapeB (sort_children (insert_all ds'))"
      by (rule sorted_shape_unique
            [OF well_formed_insert_all [OF Inr] well_formed_insert_all [OF ds'] _ n p su])
         simp
    then show ?thesis
      by (simp add: build_def Inr ds' shape_finalize_root)
  qed
qed

theorem build_permutation_invariant_witness:
  "mset [\<lparr>path = [''200-concepts'', ''100-components'', ''01-schema''], attributes = ''Schema''\<rparr>,
         \<lparr>path = [''200-concepts'', ''100-components'', ''02-client''], attributes = ''Client''\<rparr>,
         \<lparr>path = [''300-guides'', ''01-intro''], attributes = ''Intro''\<rparr>]
     = mset [\<lparr>path = [''300-guides'', ''01-intro''], attributes = ''Intro''\<rparr>,
             \<lparr>path = [''200-concepts'', ''100-components'', ''02-client''], attributes = ''Client''\<rparr>,
             \<lparr>path = [''200-concepts'', ''100-components'', ''01-schema''], attributes = ''Schema''\<rparr>]
   \<and> unambiguous (map path
        [\<lparr>path = [''200-concepts'', ''100-components'', ''01-schema''], attributes = ''Schema''\<rparr>,
         \<lparr>path = [''200-concepts'', ''100-components'', ''02-client''], attributes = ''Client''\<rparr>,
         \<lparr>path = [''300-guides'', ''01-intro''], attributes = ''Intro''\<rparr>])
   \<and> map_sum id shape
         (build
            [\<lparr>path = [''200-concepts'', ''100-components'', ''01-schema''], attributes = ''Schema''\<rparr>,
             \<lparr>path = [''200-concepts'', ''100-components'', ''02-client''], attributes = ''Client''\<rparr>,
             \<lparr>path = [''300-guides'', ''01-intro''], attributes = ''Intro''\<rparr>]
            [''200-concepts'', ''100-components'', ''02-client''])
       = map_sum id shape
           (build
              [\<lparr>path = [''300-guides'', ''01-intro''], attributes = ''Intro''\<rparr>,
               \<lparr>path = [''200-concepts'', ''100-components'', ''02-client''], attributes = ''Client''\<rparr>,
               \<lparr>path = [''200-concepts'', ''100-components'', ''01-schema''], attributes = ''Schema''\<rparr>]
              [''200-concepts'', ''100-components'', ''02-client''])"
proof -
  let ?a = "\<lparr>path = [''200-concepts'', ''100-components'', ''01-schema''], attributes = ''Schema''\<rparr>"
  let ?b = "\<lparr>path = [''200-concepts'', ''100-components'', ''02-client''], attributes = ''Client''\<rparr>"
  let ?c = "\<lparr>path = [''300-guides'', ''01-intro''], attributes = ''Intro''\<rparr>"
  have perm: "mset [?a, ?b, ?c] = mset [?c, ?b, ?a]"
    by simp
  have k1: "\<not> same_sort_key ''300-guides'' ''200-concepts''" by code_simp
  have k2: "\<not> same_sort_key ''200-concepts'' ''300-guides''" by code_simp
  have k3: "\<not> same_sort_key ''01-schema'' ''02-client''" by code_simp
  have k4: "\<not> same_sort_key ''02-client'' ''01-schema''" by code_simp
  have un: "unambiguous (map path [?a, ?b, ?c])"
    unfolding unambiguous_def
    by (simp add: k1 k2 k3 k4 lessThan_Suc numeral_2_eq_2 numeral_3_eq_3)
  from build_permutation_invariant [OF perm un]
  have "map_sum id shape (build [?a, ?b, ?c] [''200-concepts'', ''100-components'', ''02-client''])
        = map_sum id shape (build [?c, ?b, ?a] [''200-concepts'', ''100-components'', ''02-client''])" .
  with perm un show ?thesis by (intro conjI)
qed

end
